theory Spec2Isabelle
  imports Main "HOL-Library.Sublist"
begin

section \<open>Maya node graph traversal utilities (maya_node_graph.py)\<close>

subsection \<open>Data model\<close>

text \<open>The enumeration \<^verbatim>\<open>TraversalDirection\<close>.\<close>

datatype TraversalDirection = UPSTREAM | DOWNSTREAM | BOTH

text \<open>The dataclass \<^verbatim>\<open>ConnectionInfo\<close>.\<close>

record ConnectionInfo =
  source_node :: string
  source_attr :: string
  dest_node :: string
  dest_attr :: string

text \<open>Exceptions of the Python code that the model makes explicit.\<close>

datatype py_error = ValueError | IndexError | RuntimeError

text \<open>Records written to \<^verbatim>\<open>LOGGER\<close>: the level and the formatted message.\<close>

datatype log_level = LOG_WARNING | LOG_ERROR

type_synonym log_record = "log_level \<times> string"

text \<open>
  The scene host behind \<^verbatim>\<open>maya.cmds\<close>, as far as this module queries it. The three
  connection queries are the three ways \<^verbatim>\<open>cmds.listConnections\<close> is called:
  \<^verbatim>\<open>source=True, destination=False\<close>, \<^verbatim>\<open>source=False, destination=True\<close> and
  \<^verbatim>\<open>connections=True, plugs=True\<close>. Each returns \<^verbatim>\<open>None\<close> or a list, which the code
  turns into a list with \<^verbatim>\<open>or []\<close>.
\<close>

record cmds =
  objExists :: "string \<Rightarrow> bool"
  nodeType :: "string \<Rightarrow> string"
  listConnections_source :: "string \<Rightarrow> string list option"
  listConnections_destination :: "string \<Rightarrow> string list option"
  listConnections_plugs :: "string \<Rightarrow> string list option"

text \<open>Python's \<^verbatim>\<open>x or []\<close> on an optional list: a falsy value (None or the empty list)
  gives the empty list.\<close>

definition or_empty :: "'a list option \<Rightarrow> 'a list" where
  "or_empty r = (case r of None \<Rightarrow> [] | Some xs \<Rightarrow> (if xs = [] then [] else xs))"

subsection \<open>get_all_connections\<close>

text \<open>\<^verbatim>\<open>s.split(".", 1)\<close>: one piece when there is no dot, otherwise the text before the
  first dot and the text after it.\<close>

definition split_dot :: "string \<Rightarrow> string list" where
  "split_dot s =
     (if CHR ''.'' \<in> set s
      then [takeWhile (\<lambda>c. c \<noteq> CHR ''.'') s, tl (dropWhile (\<lambda>c. c \<noteq> CHR ''.'') s)]
      else [s])"

text \<open>The tuple assignment \<^verbatim>\<open>a, b = pieces\<close>, which raises ValueError unless there are
  exactly two pieces.\<close>

fun unpack2 :: "'a list \<Rightarrow> py_error + ('a \<times> 'a)" where
  "unpack2 [a, b] = Inr (a, b)"
| "unpack2 _ = Inl ValueError"

text \<open>The loop \<^verbatim>\<open>for i in range(0, len(plugs), 2)\<close>: it reads \<^verbatim>\<open>plugs[i]\<close> and
  \<^verbatim>\<open>plugs[i + 1]\<close>, so a list of odd length ends in IndexError.\<close>

fun connections_loop ::
  "string \<Rightarrow> string list \<Rightarrow> ConnectionInfo list \<Rightarrow> py_error + ConnectionInfo list" where
  "connections_loop node [] connections = Inr connections"
| "connections_loop node [plug_a] connections = Inl IndexError"
| "connections_loop node (plug_a # plug_b # rest) connections =
     (case unpack2 (split_dot plug_a) of
        Inl e \<Rightarrow> Inl e
      | Inr (node_a, attr_a) \<Rightarrow>
         (case unpack2 (split_dot plug_b) of
            Inl e \<Rightarrow> Inl e
          | Inr (node_b, attr_b) \<Rightarrow>
             (if node_a = node
              then connections_loop node rest
                     (connections @ [\<lparr>source_node = node_b, source_attr = attr_b,
                                      dest_node = node_a, dest_attr = attr_a\<rparr>])
              else connections_loop node rest
                     (connections @ [\<lparr>source_node = node_a, source_attr = attr_a,
                                      dest_node = node_b, dest_attr = attr_b\<rparr>]))))"

definition get_all_connections :: "cmds \<Rightarrow> string \<Rightarrow> py_error + ConnectionInfo list" where
  "get_all_connections M node =
     (if \<not> objExists M node then Inr []
      else connections_loop node (or_empty (listConnections_plugs M node)) [])"

subsection \<open>traverse_graph\<close>

text \<open>The state of the generator's loop: the deque, the visited set and the records
  yielded so far, in the order they were yielded.\<close>

record bfs_state =
  queue :: "(string \<times> int) list"
  visited :: "string set"
  yielded :: "(string \<times> int) list"

text \<open>\<^verbatim>\<open>if node_filter:\<close> followed by \<^verbatim>\<open>node_type not in node_filter\<close>: a filter that is
  None or empty is falsy and rejects nothing.\<close>

definition filter_rejects :: "string set option \<Rightarrow> string \<Rightarrow> bool" where
  "filter_rejects node_filter node_type =
     (case node_filter of
        None \<Rightarrow> False
      | Some types \<Rightarrow> types \<noteq> {} \<and> node_type \<notin> types)"

text \<open>The list \<^verbatim>\<open>next_nodes\<close>: the upstream answer, then the downstream answer.\<close>

definition next_nodes :: "cmds \<Rightarrow> TraversalDirection \<Rightarrow> string \<Rightarrow> string list" where
  "next_nodes M direction current_node =
     (if direction = UPSTREAM \<or> direction = BOTH
      then or_empty (listConnections_source M current_node) else [])
     @ (if direction = DOWNSTREAM \<or> direction = BOTH
        then or_empty (listConnections_destination M current_node) else [])"

text \<open>One pass through the body of \<^verbatim>\<open>while queue:\<close>.\<close>

definition loop_body ::
  "cmds \<Rightarrow> TraversalDirection \<Rightarrow> int \<Rightarrow> string set option \<Rightarrow> bfs_state \<Rightarrow> bfs_state" where
  "loop_body M direction max_depth node_filter s =
     (case queue s of
        [] \<Rightarrow> s
      | (current_node, depth) # rest \<Rightarrow>
          if current_node \<in> visited s then s\<lparr>queue := rest\<rparr>
          else if max_depth \<ge> 0 \<and> depth > max_depth then s\<lparr>queue := rest\<rparr>
          else if filter_rejects node_filter (nodeType M current_node)
          then s\<lparr>queue := rest, visited := insert current_node (visited s)\<rparr>
          else s\<lparr>queue := rest @ map (\<lambda>next_node. (next_node, depth + 1))
                                  (filter (\<lambda>next_node. next_node \<notin> insert current_node (visited s))
                                     (next_nodes M direction current_node)),
                 visited := insert current_node (visited s),
                 yielded := yielded s @ [(current_node, depth)]\<rparr>)"

text \<open>The loop itself. The host may describe an infinite graph, on which the loop
  never ends: that is the value None.\<close>

partial_function (option) bfs_loop ::
  "cmds \<Rightarrow> TraversalDirection \<Rightarrow> int \<Rightarrow> string set option \<Rightarrow> bfs_state \<Rightarrow> bfs_state option" where
  "bfs_loop M direction max_depth node_filter s =
     (if queue s = [] then Some s
      else bfs_loop M direction max_depth node_filter (loop_body M direction max_depth node_filter s))"

declare bfs_loop.simps [code]

definition initial_state :: "string \<Rightarrow> bfs_state" where
  "initial_state start_node = \<lparr>queue = [(start_node, 0)], visited = {}, yielded = []\<rparr>"

text \<open>The generator, run to exhaustion: what it logged and the records it yielded.\<close>

definition traverse_graph ::
  "cmds \<Rightarrow> string \<Rightarrow> TraversalDirection \<Rightarrow> int \<Rightarrow> string set option
     \<Rightarrow> (log_record list \<times> (string \<times> int) list) option" where
  "traverse_graph M start_node direction max_depth node_filter =
     (if \<not> objExists M start_node
      then Some ([(LOG_ERROR, ''Start node does not exist: '' @ start_node)], [])
      else (case bfs_loop M direction max_depth node_filter (initial_state start_node) of
              None \<Rightarrow> None
            | Some s \<Rightarrow> Some ([], yielded s)))"

subsection \<open>find_connected_nodes_by_type\<close>

text \<open>The loop over the generator appends the matching names to \<^verbatim>\<open>results\<close>; the
  traversal is called with the default depth -1 and the default filter None.\<close>

definition find_connected_nodes_by_type ::
  "cmds \<Rightarrow> string \<Rightarrow> string \<Rightarrow> TraversalDirection \<Rightarrow> (log_record list \<times> string list) option" where
  "find_connected_nodes_by_type M start_node target_type direction =
     (case traverse_graph M start_node direction (- 1) None of
        None \<Rightarrow> None
      | Some (logged, records) \<Rightarrow>
          Some (logged,
                fold (\<lambda>(node, _) results.
                        if nodeType M node = target_type then results @ [node] else results)
                     records []))"

subsection \<open>DGIterator\<close>

text \<open>
  The constructor calls \<^verbatim>\<open>MSelectionList.add(start_node)\<close> on a fresh selection list and
  then \<^verbatim>\<open>getDependNode(0)\<close>. The selection list is a list of objects; \<open>sel_add\<close> is the
  host's \<^verbatim>\<open>add\<close>, which either raises or returns the list with the objects it matched
  appended. Reading index 0 of an empty list raises IndexError.
\<close>

definition getDependNode :: "nat \<Rightarrow> 'obj list \<Rightarrow> py_error + 'obj" where
  "getDependNode i selection_list =
     (if i < length selection_list then Inr (selection_list ! i) else Inl IndexError)"

definition DGIterator_init ::
  "(string \<Rightarrow> 'obj list \<Rightarrow> py_error + 'obj list) \<Rightarrow> string \<Rightarrow> py_error + 'obj" where
  "DGIterator_init sel_add start_node =
     (case sel_add start_node [] of
        Inl e \<Rightarrow> Inl e
      | Inr selection_list \<Rightarrow> getDependNode 0 selection_list)"

subsection \<open>Reachability in the host graph\<close>

text \<open>The edges the traversal follows in a direction: from a node to each entry of its
  \<^verbatim>\<open>next_nodes\<close> list.\<close>

definition connected :: "cmds \<Rightarrow> TraversalDirection \<Rightarrow> (string \<times> string) set" where
  "connected M direction = {(n, m). m \<in> set (next_nodes M direction n)}"

definition reachable :: "cmds \<Rightarrow> TraversalDirection \<Rightarrow> string \<Rightarrow> string set" where
  "reachable M direction start_node = (connected M direction)\<^sup>* `` {start_node}"

text \<open>The edges both of whose ends the filter accepts, and the nodes the start node
  reaches along such edges when the filter accepts the start node itself.\<close>

definition accepted_edges ::
  "cmds \<Rightarrow> TraversalDirection \<Rightarrow> string set option \<Rightarrow> (string \<times> string) set" where
  "accepted_edges M direction node_filter =
     {(n, m). m \<in> set (next_nodes M direction n)
              \<and> \<not> filter_rejects node_filter (nodeType M n)
              \<and> \<not> filter_rejects node_filter (nodeType M m)}"

definition reachable_through ::
  "cmds \<Rightarrow> TraversalDirection \<Rightarrow> string set option \<Rightarrow> string \<Rightarrow> string set" where
  "reachable_through M direction node_filter start_node =
     {n. \<not> filter_rejects node_filter (nodeType M start_node)
         \<and> (start_node, n) \<in> (accepted_edges M direction node_filter)\<^sup>*}"

subsection \<open>Loop invariants\<close>

text \<open>Whatever was yielded is reachable through accepted nodes, and whatever waits in the
  queue is the start node or a neighbour of such a node.\<close>

definition sound_inv :: "cmds \<Rightarrow> TraversalDirection \<Rightarrow> string set option \<Rightarrow> string \<Rightarrow> bfs_state \<Rightarrow> bool" where
  "sound_inv M d f start s \<longleftrightarrow>
     (\<forall>x\<in>set (yielded s). fst x \<in> reachable_through M d f start) \<and>
     (\<forall>x\<in>set (queue s). fst x = start \<or>
         (\<exists>n\<in>reachable_through M d f start. fst x \<in> set (next_nodes M d n)))"

text \<open>Without a depth limit nothing accepted gets lost: an accepted start node and the
  accepted neighbours of yielded nodes are yielded or still queued, and every accepted
  visited node was yielded.\<close>

definition complete_inv :: "cmds \<Rightarrow> TraversalDirection \<Rightarrow> string set option \<Rightarrow> string \<Rightarrow> bfs_state \<Rightarrow> bool" where
  "complete_inv M d f start s \<longleftrightarrow>
     (\<not> filter_rejects f (nodeType M start) \<longrightarrow>
        start \<in> fst ` set (yielded s) \<or> start \<in> fst ` set (queue s)) \<and>
     (\<forall>n\<in>fst ` set (yielded s). \<forall>m\<in>set (next_nodes M d n).
        \<not> filter_rejects f (nodeType M m) \<longrightarrow>
        m \<in> fst ` set (yielded s) \<or> m \<in> fst ` set (queue s)) \<and>
     (\<forall>n\<in>visited s. \<not> filter_rejects f (nodeType M n) \<longrightarrow> n \<in> fst ` set (yielded s))"

text \<open>No name was yielded twice, and every yielded name is in the visited set.\<close>

definition once_inv :: "bfs_state \<Rightarrow> bool" where
  "once_inv s \<longleftrightarrow> distinct (map fst (yielded s)) \<and> fst ` set (yielded s) \<subseteq> visited s"

text \<open>Depths are never negative, and under a depth limit no yielded depth exceeds it.\<close>

definition depth_inv :: "int \<Rightarrow> bfs_state \<Rightarrow> bool" where
  "depth_inv md s \<longleftrightarrow>
     (\<forall>x\<in>set (yielded s). 0 \<le> snd x \<and> (0 \<le> md \<longrightarrow> snd x \<le> md)) \<and>
     (\<forall>x\<in>set (queue s). 0 \<le> snd x)"

subsection \<open>Example scenes\<close>

text \<open>A host built from a list of typed nodes and a list of directed edges
  (source, destination), answering the connection queries in edge order.\<close>

definition scene :: "(string \<times> string) list \<Rightarrow> (string \<times> string) list \<Rightarrow> cmds" where
  "scene nodes edges =
     \<lparr>objExists = (\<lambda>n. n \<in> set (map fst nodes)),
      nodeType = (\<lambda>n. case map_of nodes n of None \<Rightarrow> [] | Some t \<Rightarrow> t),
      listConnections_source =
        (\<lambda>n. case map fst (filter (\<lambda>e. snd e = n) edges) of [] \<Rightarrow> None | xs \<Rightarrow> Some xs),
      listConnections_destination =
        (\<lambda>n. case map snd (filter (\<lambda>e. fst e = n) edges) of [] \<Rightarrow> None | xs \<Rightarrow> Some xs),
      listConnections_plugs = (\<lambda>n. None)\<rparr>"

text \<open>The cycle A -> B -> C -> A.\<close>

definition cycle3 :: cmds where
  "cycle3 = scene [(''A'', ''transform''), (''B'', ''mesh''), (''C'', ''file'')]
                  [(''A'', ''B''), (''B'', ''C''), (''C'', ''A'')]"

text \<open>Two attributes of A feed two attributes of B, so B is listed twice among the
  destinations of A.\<close>

definition double_link :: cmds where
  "double_link = scene [(''A'', ''transform''), (''B'', ''mesh'')]
                       [(''A'', ''B''), (''A'', ''B'')]"


text \<open>One connection, from A.outColor to B.color. With \<^verbatim>\<open>connections=True\<close> the host
  lists, for each connection of the queried node, the plug on that node first.\<close>

definition one_link :: cmds where
  "one_link =
     \<lparr>objExists = (\<lambda>n. n = ''A'' \<or> n = ''B''),
      nodeType = (\<lambda>n. if n = ''A'' then ''lambert'' else ''shadingEngine''),
      listConnections_source = (\<lambda>n. if n = ''B'' then Some [''A''] else None),
      listConnections_destination = (\<lambda>n. if n = ''A'' then Some [''B''] else None),
      listConnections_plugs =
        (\<lambda>n. if n = ''A'' then Some [''A.outColor'', ''B.color'']
             else if n = ''B'' then Some [''B.color'', ''A.outColor'']
             else None)\<rparr>"

text \<open>A selection host given by a table from names to the objects they match: a name
  without an entry raises, any other name appends its matches.\<close>

definition selection_host ::
  "(string \<times> nat list) list \<Rightarrow> string \<Rightarrow> nat list \<Rightarrow> py_error + nat list" where
  "selection_host table name selection_list =
     (case map_of table name of
        None \<Rightarrow> Inl RuntimeError
      | Some objs \<Rightarrow> Inr (selection_list @ objs))"

text \<open>Two nodes share the short name pCube1; the name nothing matches nothing.\<close>

definition two_cubes :: "string \<Rightarrow> nat list \<Rightarrow> py_error + nat list" where
  "two_cubes = selection_host [(''pCube1'', [1, 2]), (''nothing'', [])]"

section \<open>The loop of traverse_graph\<close>

subsection \<open>Unfolding, invariants, termination\<close>

lemma bfs_loop_done: "queue s = [] \<Longrightarrow> bfs_loop M d md f s = Some s"
  by (subst bfs_loop.simps) simp

lemma bfs_loop_step:
  "queue s \<noteq> [] \<Longrightarrow> bfs_loop M d md f s = bfs_loop M d md f (loop_body M d md f s)"
  by (subst bfs_loop.simps) simp

lemma bfs_loop_invariant:
  assumes run: "bfs_loop M d md f s = Some s'"
    and init: "I s"
    and step: "\<And>t. I t \<Longrightarrow> queue t \<noteq> [] \<Longrightarrow> I (loop_body M d md f t)"
  shows "I s' \<and> queue s' = []"
proof -
  let ?P = "\<lambda>M0 d0 md0 f0 s0 r.
     M0 = M \<and> d0 = d \<and> md0 = md \<and> f0 = f \<and> I s0 \<longrightarrow> I r \<and> queue r = []"
  have "?P M d md f s s'"
  proof (rule bfs_loop.raw_induct[where P = ?P, OF _ run])
    fix loop M1 d1 md1 f1 t r
    assume IH: "\<And>M0 d0 md0 f0 s0 y. loop M0 d0 md0 f0 s0 = Some y \<Longrightarrow> ?P M0 d0 md0 f0 s0 y"
      and eq: "(if queue t = [] then Some t
                else loop M1 d1 md1 f1 (loop_body M1 d1 md1 f1 t)) = Some r"
    show "?P M1 d1 md1 f1 t r"
    proof (cases "queue t = []")
      case True
      with eq show ?thesis by auto
    next
      case False
      with eq have "loop M1 d1 md1 f1 (loop_body M1 d1 md1 f1 t) = Some r" by simp
      from IH[OF this] False step show ?thesis by auto
    qed
  qed
  with init show ?thesis by blast
qed

lemma bfs_loop_transfer:
  assumes run: "bfs_loop M d md f s = Some r"
    and eq: "\<And>t. loop_body M d md f t = loop_body M' d' md' f' t"
  shows "bfs_loop M' d' md' f' s = Some r"
proof -
  let ?P = "\<lambda>M0 d0 md0 f0 s0 y.
     M0 = M \<and> d0 = d \<and> md0 = md \<and> f0 = f \<longrightarrow> bfs_loop M' d' md' f' s0 = Some y"
  have "?P M d md f s r"
  proof (rule bfs_loop.raw_induct[where P = ?P, OF _ run])
    fix loop M1 d1 md1 f1 t y
    assume IH: "\<And>M0 d0 md0 f0 s0 y. loop M0 d0 md0 f0 s0 = Some y \<Longrightarrow> ?P M0 d0 md0 f0 s0 y"
      and body: "(if queue t = [] then Some t
                else loop M1 d1 md1 f1 (loop_body M1 d1 md1 f1 t)) = Some y"
    show "?P M1 d1 md1 f1 t y"
    proof (cases "queue t = []")
      case True
      with body show ?thesis by (auto simp: bfs_loop_done)
    next
      case False
      with body have "loop M1 d1 md1 f1 (loop_body M1 d1 md1 f1 t) = Some y" by simp
      from IH[OF this] False show ?thesis
        by (auto simp: bfs_loop_step[of t M' d' md' f'] eq)
    qed
  qed
  then show ?thesis by blast
qed

lemma bfs_loop_body_cong:
  assumes eq: "\<And>t. loop_body M d md f t = loop_body M' d' md' f' t"
  shows "bfs_loop M d md f s = bfs_loop M' d' md' f' s"
proof (cases "bfs_loop M d md f s")
  case None
  show ?thesis
  proof (cases "bfs_loop M' d' md' f' s")
    case None
    with \<open>bfs_loop M d md f s = None\<close> show ?thesis by simp
  next
    case (Some r)
    have "bfs_loop M d md f s = Some r"
      by (rule bfs_loop_transfer[OF Some]) (simp add: eq)
    with None show ?thesis by simp
  qed
next
  case (Some r)
  from bfs_loop_transfer[OF Some eq] Some show ?thesis by simp
qed

text \<open>Termination on a finite set of nodes closed under the adjacency queries: every
  pass either marks a new node of the set or shortens the queue.\<close>

lemma loop_body_seen:
  "queue s = (n, dp) # rest \<Longrightarrow> n \<in> visited s \<Longrightarrow> loop_body M d md f s = s\<lparr>queue := rest\<rparr>"
  by (simp add: loop_body_def)

lemma loop_body_deep:
  "queue s = (n, dp) # rest \<Longrightarrow> 0 \<le> md \<Longrightarrow> md < dp \<Longrightarrow> loop_body M d md f s = s\<lparr>queue := rest\<rparr>"
  by (simp add: loop_body_def)

lemma loop_body_rejected:
  "queue s = (n, dp) # rest \<Longrightarrow> n \<notin> visited s \<Longrightarrow> \<not> (0 \<le> md \<and> md < dp) \<Longrightarrow>
   filter_rejects f (nodeType M n) \<Longrightarrow>
   loop_body M d md f s = s\<lparr>queue := rest, visited := insert n (visited s)\<rparr>"
  by (auto simp: loop_body_def)

lemma loop_body_expanded:
  "queue s = (n, dp) # rest \<Longrightarrow> n \<notin> visited s \<Longrightarrow> \<not> (0 \<le> md \<and> md < dp) \<Longrightarrow>
   \<not> filter_rejects f (nodeType M n) \<Longrightarrow>
   loop_body M d md f s =
     s\<lparr>queue := rest @ map (\<lambda>m. (m, dp + 1))
                           (filter (\<lambda>m. m \<notin> insert n (visited s)) (next_nodes M d n)),
       visited := insert n (visited s),
       yielded := yielded s @ [(n, dp)]\<rparr>"
  by (auto simp: loop_body_def)

lemma loop_body_cases [consumes 1, case_names seen deep rejected expanded]:
  assumes "queue s = (n, dp) # rest"
  obtains "n \<in> visited s" "loop_body M d md f s = s\<lparr>queue := rest\<rparr>"
  | "n \<notin> visited s" "0 \<le> md" "md < dp" "loop_body M d md f s = s\<lparr>queue := rest\<rparr>"
  | "n \<notin> visited s" "\<not> (0 \<le> md \<and> md < dp)" "filter_rejects f (nodeType M n)"
      "loop_body M d md f s = s\<lparr>queue := rest, visited := insert n (visited s)\<rparr>"
  | "n \<notin> visited s" "\<not> (0 \<le> md \<and> md < dp)" "\<not> filter_rejects f (nodeType M n)"
      "loop_body M d md f s =
         s\<lparr>queue := rest @ map (\<lambda>m. (m, dp + 1))
                               (filter (\<lambda>m. m \<notin> insert n (visited s)) (next_nodes M d n)),
           visited := insert n (visited s),
           yielded := yielded s @ [(n, dp)]\<rparr>"
  using loop_body_seen[OF assms] loop_body_deep[OF assms] loop_body_rejected[OF assms]
    loop_body_expanded[OF assms]
  by blast

lemma loop_body_queue_nodes:
  assumes q: "\<forall>x\<in>set (queue s). fst x \<in> V" and closed: "\<forall>n\<in>V. set (next_nodes M d n) \<subseteq> V"
  shows "\<forall>x\<in>set (queue (loop_body M d md f s)). fst x \<in> V"
proof (cases "queue s")
  case Nil
  then show ?thesis by (simp add: loop_body_def)
next
  case (Cons x rest)
  obtain n dp where x: "x = (n, dp)" by (cases x)
  from Cons x have qs: "queue s = (n, dp) # rest" by simp
  from q qs have nV: "n \<in> V" and restV: "\<forall>x\<in>set rest. fst x \<in> V" by auto
  from closed nV have "set (next_nodes M d n) \<subseteq> V" by blast
  with restV show ?thesis
    by (cases rule: loop_body_cases[OF qs, of M d md f]) auto
qed

lemma loop_body_decreases:
  assumes "finite V" and "\<forall>x\<in>set (queue s). fst x \<in> V" and "queue s \<noteq> []"
  shows "(loop_body M d md f s, s) \<in> measures [\<lambda>t. card (V - visited t), \<lambda>t. length (queue t)]"
proof -
  from assms(3) obtain n dp rest where q: "queue s = (n, dp) # rest"
    by (cases "queue s") auto
  with assms(2) have nV: "n \<in> V" by auto
  have less: "card (V - insert n (visited s)) < card (V - visited s)" if "n \<notin> visited s"
  proof (rule psubset_card_mono)
    show "finite (V - visited s)" using assms(1) by simp
    show "V - insert n (visited s) \<subset> V - visited s" using nV that by auto
  qed
  show ?thesis using q less by (auto simp: loop_body_def)
qed

lemma bfs_loop_terminates:
  assumes fin: "finite V" and closed: "\<forall>n\<in>V. set (next_nodes M d n) \<subseteq> V"
    and q: "\<forall>x\<in>set (queue s). fst x \<in> V"
  shows "\<exists>s'. bfs_loop M d md f s = Some s'"
  using q
proof (induction s rule: wf_induct_rule[OF wf_measures[of "[\<lambda>t. card (V - visited t), \<lambda>t. length (queue t)]"]])
  case (1 s)
  show ?case
  proof (cases "queue s = []")
    case True
    then show ?thesis by (simp add: bfs_loop_done)
  next
    case False
    have "\<exists>s'. bfs_loop M d md f (loop_body M d md f s) = Some s'"
      by (rule 1(1)[OF loop_body_decreases[OF fin 1(2) False] loop_body_queue_nodes[OF 1(2) closed]])
    with False show ?thesis by (simp add: bfs_loop_step)
  qed
qed

subsection \<open>Reachable sets\<close>

lemma reachable_through_accepts:
  assumes "n \<in> reachable_through M d f start"
  shows "\<not> filter_rejects f (nodeType M n)"
proof -
  from assms have st: "\<not> filter_rejects f (nodeType M start)"
    and path: "(start, n) \<in> (accepted_edges M d f)\<^sup>*"
    by (auto simp: reachable_through_def)
  from path show ?thesis
  proof (cases rule: rtranclE)
    case base
    with st show ?thesis by simp
  next
    case (step y)
    then show ?thesis by (simp add: accepted_edges_def)
  qed
qed

lemma reachable_through_start:
  "\<not> filter_rejects f (nodeType M start) \<Longrightarrow> start \<in> reachable_through M d f start"
  by (simp add: reachable_through_def)

lemma reachable_through_next:
  assumes "n \<in> reachable_through M d f start" and "m \<in> set (next_nodes M d n)"
    and "\<not> filter_rejects f (nodeType M m)"
  shows "m \<in> reachable_through M d f start"
proof -
  from assms(1) have "\<not> filter_rejects f (nodeType M n)" by (rule reachable_through_accepts)
  with assms(2,3) have "(n, m) \<in> accepted_edges M d f" by (simp add: accepted_edges_def)
  with assms(1) show ?thesis
    by (auto simp: reachable_through_def intro: rtrancl_into_rtrancl)
qed

lemma reachable_through_least:
  assumes start: "\<not> filter_rejects f (nodeType M start) \<Longrightarrow> start \<in> S"
    and closed: "\<And>n m. n \<in> S \<Longrightarrow> m \<in> set (next_nodes M d n) \<Longrightarrow>
                   \<not> filter_rejects f (nodeType M m) \<Longrightarrow> m \<in> S"
  shows "reachable_through M d f start \<subseteq> S"
proof
  fix n assume "n \<in> reachable_through M d f start"
  then have st: "\<not> filter_rejects f (nodeType M start)"
    and path: "(start, n) \<in> (accepted_edges M d f)\<^sup>*"
    by (auto simp: reachable_through_def)
  from path show "n \<in> S"
  proof (induction rule: rtrancl_induct)
    case base
    from st show ?case by (rule start)
  next
    case (step y z)
    then show ?case using closed[of y z] by (simp add: accepted_edges_def)
  qed
qed

lemma reachable_through_unfiltered:
  assumes "\<And>t. \<not> filter_rejects f t"
  shows "reachable_through M d f start = reachable M d start"
proof -
  have "accepted_edges M d f = connected M d"
    by (auto simp: accepted_edges_def connected_def assms)
  then show ?thesis by (auto simp: reachable_through_def reachable_def assms)
qed




subsection \<open>The invariants are kept by every pass\<close>

lemma sound_inv_step:
  assumes inv: "sound_inv M d f start s" and ne: "queue s \<noteq> []"
  shows "sound_inv M d f start (loop_body M d md f s)"
proof -
  from ne obtain n dp rest where qs: "queue s = (n, dp) # rest"
    by (cases "queue s") auto
  from qs show ?thesis
  proof (cases rule: loop_body_cases[where M = M and d = d and md = md and f = f])
    case seen
    with inv qs show ?thesis by (simp add: sound_inv_def)
  next
    case deep
    with inv qs show ?thesis by (simp add: sound_inv_def)
  next
    case rejected
    with inv qs show ?thesis by (simp add: sound_inv_def)
  next
    case expanded
    from inv qs have "n = start \<or> (\<exists>k\<in>reachable_through M d f start. n \<in> set (next_nodes M d k))"
      by (simp add: sound_inv_def)
    with expanded(3) have nR: "n \<in> reachable_through M d f start"
      by (auto intro: reachable_through_start reachable_through_next)
    with inv qs expanded(4) show ?thesis by (auto simp: sound_inv_def)
  qed
qed

lemma complete_inv_step:
  assumes inv: "complete_inv M d f start s" and ne: "queue s \<noteq> []" and md: "md < 0"
  shows "complete_inv M d f start (loop_body M d md f s)"
proof -
  from ne obtain n dp rest where qs: "queue s = (n, dp) # rest"
    by (cases "queue s") auto
  define Y where "Y = fst ` set (yielded s)"
  define R where "R = fst ` set rest"
  define acc where "acc = (\<lambda>k. \<not> filter_rejects f (nodeType M k))"
  from inv qs have a: "acc start \<longrightarrow> start \<in> Y \<or> start = n \<or> start \<in> R"
    and b: "\<forall>k\<in>Y. \<forall>m\<in>set (next_nodes M d k). acc m \<longrightarrow> m \<in> Y \<or> m = n \<or> m \<in> R"
    and c: "\<forall>k\<in>visited s. acc k \<longrightarrow> k \<in> Y"
    by (simp_all add: complete_inv_def Y_def R_def acc_def)
  have goal: "complete_inv M d f start t"
    if "acc start \<longrightarrow> start \<in> fst ` set (yielded t) \<or> start \<in> fst ` set (queue t)"
      and "\<forall>k\<in>fst ` set (yielded t). \<forall>m\<in>set (next_nodes M d k).
             acc m \<longrightarrow> m \<in> fst ` set (yielded t) \<or> m \<in> fst ` set (queue t)"
      and "\<forall>k\<in>visited t. acc k \<longrightarrow> k \<in> fst ` set (yielded t)" for t
    using that unfolding complete_inv_def acc_def by blast
  from qs show ?thesis
  proof (cases rule: loop_body_cases[where M = M and d = d and md = md and f = f])
    case seen
    have y: "fst ` set (yielded (loop_body M d md f s)) = Y"
      and q: "fst ` set (queue (loop_body M d md f s)) = R"
      and v: "visited (loop_body M d md f s) = visited s"
      by (simp_all add: seen(2) Y_def R_def)
    show ?thesis
      by (rule goal; unfold y q v) (use a b c seen(1) in blast)+
  next
    case deep
    with md show ?thesis by simp
  next
    case rejected
    have y: "fst ` set (yielded (loop_body M d md f s)) = Y"
      and q: "fst ` set (queue (loop_body M d md f s)) = R"
      and v: "visited (loop_body M d md f s) = insert n (visited s)"
      by (simp_all add: rejected(4) Y_def R_def)
    from rejected(3) have "\<not> acc n" by (simp add: acc_def)
    then show ?thesis
      by (intro goal; unfold y q v) (use a b c in blast)+
  next
    case expanded
    have y: "fst ` set (yielded (loop_body M d md f s)) = insert n Y"
      and q: "fst ` set (queue (loop_body M d md f s))
                = R \<union> {m \<in> set (next_nodes M d n). m \<noteq> n \<and> m \<notin> visited s}"
      and v: "visited (loop_body M d md f s) = insert n (visited s)"
      by (auto simp: expanded(4) Y_def R_def image_Un image_image)
    show ?thesis
      by (rule goal; unfold y q v) (use a b c in blast)+
  qed
qed

lemma once_inv_step:
  assumes inv: "once_inv s" and ne: "queue s \<noteq> []"
  shows "once_inv (loop_body M d md f s)"
proof -
  from ne obtain n dp rest where qs: "queue s = (n, dp) # rest"
    by (cases "queue s") auto
  from qs inv show ?thesis
    by (cases rule: loop_body_cases[where M = M and d = d and md = md and f = f])
       (auto simp: once_inv_def)
qed

lemma depth_inv_step:
  assumes inv: "depth_inv md s" and ne: "queue s \<noteq> []"
  shows "depth_inv md (loop_body M d md f s)"
proof -
  from ne obtain n dp rest where qs: "queue s = (n, dp) # rest"
    by (cases "queue s") auto
  from qs inv show ?thesis
    by (cases rule: loop_body_cases[where M = M and d = d and md = md and f = f])
       (use qs in \<open>auto simp: depth_inv_def\<close>)
qed

subsection \<open>Properties of a finished traversal\<close>

lemma traverse_graph_run:
  assumes "traverse_graph M start d md f = Some (lg, out)" and "objExists M start"
  obtains s' where "bfs_loop M d md f (initial_state start) = Some s'"
    and "lg = []" and "out = yielded s'"
  using assms by (auto simp: traverse_graph_def split: option.splits)

lemma traverse_graph_sound:
  assumes run: "traverse_graph M start d md f = Some (lg, out)"
  shows "fst ` set out \<subseteq> reachable_through M d f start"
proof (cases "objExists M start")
  case False
  with run show ?thesis by (simp add: traverse_graph_def)
next
  case True
  from run True obtain s' where loop: "bfs_loop M d md f (initial_state start) = Some s'"
    and out: "out = yielded s'" by (rule traverse_graph_run)
  have "sound_inv M d f start (initial_state start)"
    by (simp add: sound_inv_def initial_state_def)
  from bfs_loop_invariant[OF loop, of "sound_inv M d f start", OF this sound_inv_step]
  have "sound_inv M d f start s'" by simp
  with out show ?thesis by (auto simp: sound_inv_def)
qed

lemma traverse_graph_complete:
  assumes run: "traverse_graph M start d md f = Some (lg, out)"
    and ex: "objExists M start" and md: "md < 0"
  shows "reachable_through M d f start \<subseteq> fst ` set out"
proof -
  from run ex obtain s' where loop: "bfs_loop M d md f (initial_state start) = Some s'"
    and out: "out = yielded s'" by (rule traverse_graph_run)
  have "complete_inv M d f start (initial_state start)"
    by (simp add: complete_inv_def initial_state_def)
  from bfs_loop_invariant[OF loop, of "complete_inv M d f start", OF this complete_inv_step[OF _ _ md]]
  have inv: "complete_inv M d f start s'" and emp: "queue s' = []" by simp_all
  show ?thesis
  proof (rule reachable_through_least)
    assume "\<not> filter_rejects f (nodeType M start)"
    with inv emp out show "start \<in> fst ` set out" by (simp add: complete_inv_def)
  next
    fix n m
    assume "n \<in> fst ` set out" "m \<in> set (next_nodes M d n)" "\<not> filter_rejects f (nodeType M m)"
    with inv emp out show "m \<in> fst ` set out" unfolding complete_inv_def by auto
  qed
qed

lemma traverse_graph_distinct:
  assumes run: "traverse_graph M start d md f = Some (lg, out)"
  shows "distinct (map fst out)"
proof (cases "objExists M start")
  case False
  with run show ?thesis by (simp add: traverse_graph_def)
next
  case True
  from run True obtain s' where loop: "bfs_loop M d md f (initial_state start) = Some s'"
    and out: "out = yielded s'" by (rule traverse_graph_run)
  have "once_inv (initial_state start)" by (simp add: once_inv_def initial_state_def)
  from bfs_loop_invariant[OF loop, of once_inv, OF this once_inv_step]
  show ?thesis by (simp add: once_inv_def out)
qed

lemma traverse_graph_depths:
  assumes run: "traverse_graph M start d md f = Some (lg, out)" and x: "x \<in> set out"
  shows "0 \<le> snd x \<and> (0 \<le> md \<longrightarrow> snd x \<le> md)"
proof (cases "objExists M start")
  case False
  with run x show ?thesis by (simp add: traverse_graph_def)
next
  case True
  from run True obtain s' where loop: "bfs_loop M d md f (initial_state start) = Some s'"
    and out: "out = yielded s'" by (rule traverse_graph_run)
  have "depth_inv md (initial_state start)" by (simp add: depth_inv_def initial_state_def)
  from bfs_loop_invariant[OF loop, of "depth_inv md", OF this depth_inv_step]
  show ?thesis using x by (simp add: depth_inv_def out)
qed

lemma traverse_graph_terminates:
  assumes fin: "finite V" and closed: "\<forall>n\<in>V. set (next_nodes M d n) \<subseteq> V" and st: "start \<in> V"
  shows "\<exists>r. traverse_graph M start d md f = Some r"
proof (cases "objExists M start")
  case False
  then show ?thesis by (simp add: traverse_graph_def)
next
  case True
  from st have "\<forall>x\<in>set (queue (initial_state start)). fst x \<in> V"
    by (simp add: initial_state_def)
  from bfs_loop_terminates[OF fin closed this]
  obtain s' where "bfs_loop M d md f (initial_state start) = Some s'" by blast
  with True show ?thesis by (simp add: traverse_graph_def)
qed


subsection \<open>Running the example scenes\<close>

text \<open>The equations that evaluate a traversal of a concrete scene.\<close>

lemmas scene_eval = scene_def next_nodes_def or_empty_def filter_rejects_def loop_body_def
  initial_state_def traverse_graph_def bfs_loop_done bfs_loop_step

lemma cycle3_run:
  "traverse_graph cycle3 ''A'' DOWNSTREAM (- 1) None
     = Some ([], [(''A'', 0), (''B'', 1), (''C'', 2)])"
  by (simp add: cycle3_def scene_eval)

lemma cycle3_filtered:
  "traverse_graph cycle3 ''A'' DOWNSTREAM (- 1) (Some {''transform'', ''file''})
     = Some ([], [(''A'', 0)])"
  by (simp add: cycle3_def scene_eval)

lemma cycle3_depth1:
  "traverse_graph cycle3 ''A'' DOWNSTREAM 1 None = Some ([], [(''A'', 0), (''B'', 1)])"
  by (simp add: cycle3_def scene_eval)

lemma cycle3_closed:
  "\<forall>n\<in>{''A'', ''B'', ''C''}. set (next_nodes cycle3 d n) \<subseteq> {''A'', ''B'', ''C''}"
  by (cases d) (simp_all add: cycle3_def scene_def next_nodes_def or_empty_def)

section \<open>Properties of the specification\<close>

subsection \<open>Absent start node\<close>

text \<open>
  C6: when the start node does not exist in the host, traverse_graph logs one error
  record naming the node, raises nothing and yields no record at all.
\<close>

theorem traverse_graph_absent_start:
  "\<not> objExists M start_node \<Longrightarrow>
   traverse_graph M start_node direction max_depth node_filter
     = Some ([(LOG_ERROR, ''Start node does not exist: '' @ start_node)], [])"
  by (simp add: traverse_graph_def)

theorem traverse_graph_absent_start_witness:
  "\<not> objExists cycle3 ''Z'' \<and>
   traverse_graph cycle3 ''Z'' UPSTREAM (- 1) None
     = Some ([(LOG_ERROR, ''Start node does not exist: Z'')], [])"
  using traverse_graph_absent_start[of cycle3 "''Z''" UPSTREAM "- 1" None]
  by (simp add: cycle3_def scene_def)

subsection \<open>Termination\<close>

text \<open>
  C2: on every finite graph, cyclic or not, traverse_graph terminates: whenever the start
  node lies in a finite set of nodes closed under the adjacency queries of the chosen
  direction, the traversal returns. On the cycle A -> B -> C -> A, from A downstream
  with unlimited depth, it yields (A,0), (B,1), (C,2) and nothing more.
\<close>

theorem traverse_graph_terminates_finite:
  "(finite V \<and> start_node \<in> V \<and> (\<forall>n\<in>V. set (next_nodes M direction n) \<subseteq> V)
      \<longrightarrow> (\<exists>r. traverse_graph M start_node direction max_depth node_filter = Some r))
   \<and> traverse_graph cycle3 ''A'' DOWNSTREAM (- 1) None
       = Some ([], [(''A'', 0), (''B'', 1), (''C'', 2)])"
  using traverse_graph_terminates[of V M direction start_node max_depth node_filter] cycle3_run
  by blast

theorem traverse_graph_terminates_finite_witness:
  "finite {''A'', ''B'', ''C''} \<and> ''A'' \<in> {''A'', ''B'', ''C''}
   \<and> set (next_nodes cycle3 DOWNSTREAM ''A'') \<subseteq> {''A'', ''B'', ''C''}
   \<and> set (next_nodes cycle3 DOWNSTREAM ''B'') \<subseteq> {''A'', ''B'', ''C''}
   \<and> set (next_nodes cycle3 DOWNSTREAM ''C'') \<subseteq> {''A'', ''B'', ''C''}
   \<and> (\<exists>r. traverse_graph cycle3 ''A'' DOWNSTREAM 1 None = Some r)"
  using traverse_graph_terminates_finite[of "{''A'', ''B'', ''C''}" "''A''" cycle3 DOWNSTREAM 1 None]
    cycle3_closed[of DOWNSTREAM]
  by simp

subsection \<open>Filtering prunes the walk\<close>

lemma filter_rejects_Some:
  "types \<noteq> {} \<Longrightarrow> filter_rejects (Some types) t \<longleftrightarrow> t \<notin> types"
  by (simp add: filter_rejects_def)

lemma filter_rejects_inactive:
  "\<not> filter_rejects None t" "\<not> filter_rejects (Some {}) t"
  by (simp_all add: filter_rejects_def)

lemma reachable_through_Some:
  assumes "types \<noteq> {}"
  shows "n \<in> reachable_through M d (Some types) start \<longleftrightarrow>
         nodeType M start \<in> types \<and> nodeType M n \<in> types \<and>
         (start, n) \<in> {(a, b). b \<in> set (next_nodes M d a) \<and> nodeType M a \<in> types
                                \<and> nodeType M b \<in> types}\<^sup>*"
proof -
  have e: "accepted_edges M d (Some types)
        = {(a, b). b \<in> set (next_nodes M d a) \<and> nodeType M a \<in> types \<and> nodeType M b \<in> types}"
    by (simp add: accepted_edges_def filter_rejects_Some[OF assms])
  have "nodeType M n \<in> types" if "n \<in> reachable_through M d (Some types) start"
    using reachable_through_accepts[OF that] by (simp add: filter_rejects_Some[OF assms])
  then show ?thesis
    by (auto simp: reachable_through_def e filter_rejects_Some[OF assms])
qed

text \<open>
  C1: with a non-empty type filter, a dequeued node whose type is not in the filter is
  marked visited and nothing else happens: no record is yielded and no neighbour is
  enqueued. Hence every yielded node has an accepted type and is reached from the start
  node along edges between accepted nodes only, so a node that can only be reached through
  a rejected node never appears; when the start node itself is rejected nothing is yielded.
\<close>

theorem filter_prunes_expansion:
  assumes "types \<noteq> {}"
  shows "(\<forall>s n dp rest.
            queue s = (n, dp) # rest \<and> n \<notin> visited s \<and> \<not> (0 \<le> max_depth \<and> max_depth < dp)
              \<and> nodeType M n \<notin> types \<longrightarrow>
            loop_body M direction max_depth (Some types) s
              = s\<lparr>queue := rest, visited := insert n (visited s)\<rparr>)
       \<and> (\<forall>logged out.
            traverse_graph M start_node direction max_depth (Some types) = Some (logged, out) \<longrightarrow>
            (\<forall>x\<in>set out.
               nodeType M start_node \<in> types \<and> nodeType M (fst x) \<in> types \<and>
               (start_node, fst x) \<in> {(a, b). b \<in> set (next_nodes M direction a)
                                         \<and> nodeType M a \<in> types \<and> nodeType M b \<in> types}\<^sup>*)
            \<and> (nodeType M start_node \<notin> types \<longrightarrow> out = []))"
proof (intro conjI allI impI)
  fix s :: bfs_state and n dp rest
  assume "queue s = (n, dp) # rest \<and> n \<notin> visited s \<and> \<not> (0 \<le> max_depth \<and> max_depth < dp)
              \<and> nodeType M n \<notin> types"
  then show "loop_body M direction max_depth (Some types) s
              = s\<lparr>queue := rest, visited := insert n (visited s)\<rparr>"
    using loop_body_rejected[of s n dp rest max_depth "Some types" M direction]
    by (simp add: filter_rejects_Some[OF assms])
next
  fix logged out
  assume run: "traverse_graph M start_node direction max_depth (Some types) = Some (logged, out)"
  have sub: "fst x \<in> reachable_through M direction (Some types) start_node" if "x \<in> set out" for x
    using traverse_graph_sound[OF run] that by auto
  show "\<forall>x\<in>set out.
               nodeType M start_node \<in> types \<and> nodeType M (fst x) \<in> types \<and>
               (start_node, fst x) \<in> {(a, b). b \<in> set (next_nodes M direction a)
                                         \<and> nodeType M a \<in> types \<and> nodeType M b \<in> types}\<^sup>*"
  proof
    fix x assume "x \<in> set out"
    from sub[OF this] show "nodeType M start_node \<in> types \<and> nodeType M (fst x) \<in> types \<and>
               (start_node, fst x) \<in> {(a, b). b \<in> set (next_nodes M direction a)
                                         \<and> nodeType M a \<in> types \<and> nodeType M b \<in> types}\<^sup>*"
      by (simp only: reachable_through_Some[OF assms])
  qed
  assume no: "nodeType M start_node \<notin> types"
  show "out = []"
  proof (cases out)
    case Nil
    then show ?thesis .
  next
    case (Cons x xs)
    then have "x \<in> set out" by simp
    from sub[OF this] no show ?thesis by (simp add: reachable_through_Some[OF assms])
  qed
qed

theorem filter_prunes_expansion_witness:
  "{''transform'', ''file''} \<noteq> ({} :: string set)
   \<and> nodeType cycle3 ''B'' \<notin> {''transform'', ''file''}
   \<and> nodeType cycle3 ''C'' \<in> {''transform'', ''file''}
   \<and> loop_body cycle3 DOWNSTREAM (- 1) (Some {''transform'', ''file''})
        \<lparr>queue = [(''B'', 1)], visited = {''A''}, yielded = [(''A'', 0)]\<rparr>
      = \<lparr>queue = [], visited = {''B'', ''A''}, yielded = [(''A'', 0)]\<rparr>
   \<and> traverse_graph cycle3 ''A'' DOWNSTREAM (- 1) (Some {''transform'', ''file''})
      = Some ([], [(''A'', 0)])
   \<and> nodeType cycle3 ''A'' \<in> {''transform'', ''file''}
   \<and> traverse_graph cycle3 ''B'' DOWNSTREAM (- 1) (Some {''transform'', ''file''})
      = Some ([], [])"
proof -
  have ne: "{''transform'', ''file''} \<noteq> ({} :: string set)" by simp
  have tB: "nodeType cycle3 ''B'' \<notin> {''transform'', ''file''}"
    and tC: "nodeType cycle3 ''C'' \<in> {''transform'', ''file''}"
    by (simp_all add: cycle3_def scene_def)
  note inst = filter_prunes_expansion[OF ne, of "- 1" cycle3 DOWNSTREAM]
  have step: "loop_body cycle3 DOWNSTREAM (- 1) (Some {''transform'', ''file''})
        \<lparr>queue = [(''B'', 1)], visited = {''A''}, yielded = [(''A'', 0)]\<rparr>
      = \<lparr>queue = [], visited = {''B'', ''A''}, yielded = [(''A'', 0)]\<rparr>"
  proof -
    have st: "queue s = (n, dp) # rest \<and> n \<notin> visited s \<and> \<not> (0 \<le> (- 1 :: int) \<and> - 1 < dp)
                \<and> nodeType cycle3 n \<notin> {''transform'', ''file''} \<longrightarrow>
              loop_body cycle3 DOWNSTREAM (- 1) (Some {''transform'', ''file''}) s
                = s\<lparr>queue := rest, visited := insert n (visited s)\<rparr>"
      for s :: bfs_state and n dp rest
      using inst[of "''A''"] by blast
    show ?thesis
      using st[of "\<lparr>queue = [(''B'', 1)], visited = {''A''}, yielded = [(''A'', 0)]\<rparr>" "''B''" 1 "[]"] tB
      by simp
  qed
  have runA: "traverse_graph cycle3 ''A'' DOWNSTREAM (- 1) (Some {''transform'', ''file''})
      = Some ([], [(''A'', 0)])"
    by (simp add: cycle3_def scene_eval)
  with inst[of "''A''"] have tA: "nodeType cycle3 ''A'' \<in> {''transform'', ''file''}" by simp
  have runB: "traverse_graph cycle3 ''B'' DOWNSTREAM (- 1) (Some {''transform'', ''file''})
      = Some ([], [])"
    by (simp add: cycle3_def scene_eval)
  from ne tB tC step runA tA runB show ?thesis by blast
qed

subsection \<open>Each node once\<close>







subsection \<open>The depth ceiling\<close>

lemma bfs_loop_all_deep:
  assumes md: "0 \<le> md"
  shows "\<forall>x\<in>set (queue s). md < snd x \<Longrightarrow> bfs_loop M d md f s = Some (s\<lparr>queue := []\<rparr>)"
proof (induction "queue s" arbitrary: s)
  case Nil
  then show ?case by (simp add: bfs_loop_done)
next
  case (Cons x rest)
  obtain n dp where x: "x = (n, dp)" by (cases x)
  from Cons(2) x have qs: "queue s = (n, dp) # rest" by simp
  with Cons(3) have dp: "md < dp" by simp
  have body: "loop_body M d md f s = s\<lparr>queue := rest\<rparr>"
    by (rule loop_body_deep[OF qs md dp])
  have "bfs_loop M d md f (s\<lparr>queue := rest\<rparr>) = Some (s\<lparr>queue := rest\<rparr>\<lparr>queue := []\<rparr>)"
    by (rule Cons(1)) (use Cons(3) qs in simp_all)
  with qs body show ?case by (simp add: bfs_loop_step)
qed

lemma traverse_graph_depth_zero:
  assumes ex: "objExists M start"
  shows "traverse_graph M start d 0 f
           = Some ([], if filter_rejects f (nodeType M start) then [] else [(start, 0)])"
proof -
  let ?s0 = "initial_state start"
  have q0: "queue ?s0 = (start, 0) # []" and v0: "start \<notin> visited ?s0"
    by (simp_all add: initial_state_def)
  have step: "bfs_loop M d 0 f ?s0 = bfs_loop M d 0 f (loop_body M d 0 f ?s0)"
    by (rule bfs_loop_step) (simp add: initial_state_def)
  show ?thesis
  proof (cases "filter_rejects f (nodeType M start)")
    case True
    have "loop_body M d 0 f ?s0 = ?s0\<lparr>queue := [], visited := insert start (visited ?s0)\<rparr>"
      by (rule loop_body_rejected[OF q0 v0 _ True]) simp
    with step have "bfs_loop M d 0 f ?s0
        = Some (?s0\<lparr>queue := [], visited := insert start (visited ?s0)\<rparr>)"
      by (simp add: bfs_loop_done)
    with ex True show ?thesis by (simp add: traverse_graph_def initial_state_def)
  next
    case False
    let ?s1 = "loop_body M d 0 f ?s0"
    have s1: "?s1 = ?s0\<lparr>queue := [] @ map (\<lambda>m. (m, 0 + 1))
                           (filter (\<lambda>m. m \<notin> insert start (visited ?s0)) (next_nodes M d start)),
                 visited := insert start (visited ?s0),
                 yielded := yielded ?s0 @ [(start, 0)]\<rparr>"
      by (rule loop_body_expanded[OF q0 v0 _ False]) simp
    have "\<forall>x\<in>set (queue ?s1). 0 < snd x" by (auto simp: s1)
    from bfs_loop_all_deep[OF _ this, of M d f]
    have "bfs_loop M d 0 f ?s1 = Some (?s1\<lparr>queue := []\<rparr>)" by simp
    with step have "bfs_loop M d 0 f ?s0 = Some (?s1\<lparr>queue := []\<rparr>)" by simp
    moreover have "yielded (?s1\<lparr>queue := []\<rparr>) = [(start, 0)]"
      unfolding s1 by (simp add: initial_state_def)
    ultimately show ?thesis using ex False by (simp add: traverse_graph_def)
  qed
qed

text \<open>
  C4: max_depth is a depth ceiling. When it is negative nothing is cut off: every node
  reachable from the start through accepted nodes is yielded, whatever its distance.
  When it is not negative, a dequeued record whose depth exceeds it is dropped with no
  other effect (no yield, no expansion), and no yielded depth exceeds it. With
  max_depth = 0 an existing start node is yielded alone when the filter accepts it, and
  nothing is yielded otherwise.
\<close>

theorem max_depth_is_ceiling:
  "(max_depth < 0 \<and> objExists M start_node \<longrightarrow>
      (\<forall>logged out.
         traverse_graph M start_node direction max_depth node_filter = Some (logged, out) \<longrightarrow>
         fst ` set out = reachable_through M direction node_filter start_node))
   \<and> (0 \<le> max_depth \<longrightarrow>
        (\<forall>s n dp rest.
           queue s = (n, dp) # rest \<and> max_depth < dp \<longrightarrow>
           loop_body M direction max_depth node_filter s = s\<lparr>queue := rest\<rparr>) \<and>
        (\<forall>logged out.
           traverse_graph M start_node direction max_depth node_filter = Some (logged, out) \<longrightarrow>
           (\<forall>x\<in>set out. snd x \<le> max_depth)))
   \<and> (objExists M start_node \<longrightarrow>
        traverse_graph M start_node direction 0 node_filter
          = Some ([], if filter_rejects node_filter (nodeType M start_node) then []
                      else [(start_node, 0)]))"
proof (intro conjI allI impI ballI)
  fix logged out
  assume h: "max_depth < 0 \<and> objExists M start_node"
    and run: "traverse_graph M start_node direction max_depth node_filter = Some (logged, out)"
  show "fst ` set out = reachable_through M direction node_filter start_node"
    using traverse_graph_sound[OF run] traverse_graph_complete[OF run] h by auto
next
  fix s :: bfs_state and n dp rest
  assume "0 \<le> max_depth" and "queue s = (n, dp) # rest \<and> max_depth < dp"
  then show "loop_body M direction max_depth node_filter s = s\<lparr>queue := rest\<rparr>"
    by (simp add: loop_body_deep)
next
  fix logged out x
  assume "0 \<le> max_depth"
    and "traverse_graph M start_node direction max_depth node_filter = Some (logged, out)"
    and "x \<in> set out"
  then show "snd x \<le> max_depth" using traverse_graph_depths by blast
next
  assume "objExists M start_node"
  then show "traverse_graph M start_node direction 0 node_filter
          = Some ([], if filter_rejects node_filter (nodeType M start_node) then []
                      else [(start_node, 0)])"
    by (rule traverse_graph_depth_zero)
qed

theorem max_depth_is_ceiling_witness:
  "objExists cycle3 ''A'' \<and> (- 1 :: int) < 0 \<and> (0 :: int) \<le> 1
   \<and> traverse_graph cycle3 ''A'' DOWNSTREAM (- 1) None
       = Some ([], [(''A'', 0), (''B'', 1), (''C'', 2)])
   \<and> reachable_through cycle3 DOWNSTREAM None ''A'' = {''A'', ''B'', ''C''}
   \<and> traverse_graph cycle3 ''A'' DOWNSTREAM 1 None = Some ([], [(''A'', 0), (''B'', 1)])
   \<and> loop_body cycle3 DOWNSTREAM 1 None
        \<lparr>queue = [(''C'', 2)], visited = {''B'', ''A''}, yielded = [(''A'', 0), (''B'', 1)]\<rparr>
      = \<lparr>queue = [], visited = {''B'', ''A''}, yielded = [(''A'', 0), (''B'', 1)]\<rparr>
   \<and> traverse_graph cycle3 ''A'' DOWNSTREAM 0 None = Some ([], [(''A'', 0)])
   \<and> traverse_graph cycle3 ''A'' DOWNSTREAM 0 (Some {''mesh''}) = Some ([], [])"
proof -
  have ex: "objExists cycle3 ''A''" by (simp add: cycle3_def scene_def)
  have r1: "fst ` set [(''A'', 0 :: int), (''B'', 1), (''C'', 2)]
              = reachable_through cycle3 DOWNSTREAM None ''A''"
    using max_depth_is_ceiling[of "- 1" cycle3 "''A''" DOWNSTREAM None] ex cycle3_run by simp
  then have reach: "reachable_through cycle3 DOWNSTREAM None ''A'' = {''A'', ''B'', ''C''}"
    by auto
  have st: "queue s = (n, dp) # rest \<and> 1 < dp \<longrightarrow>
            loop_body cycle3 DOWNSTREAM 1 None s = s\<lparr>queue := rest\<rparr>"
    for s :: bfs_state and n dp rest
    using max_depth_is_ceiling[of 1 cycle3 "''A''" DOWNSTREAM None] by simp blast
  have deep: "loop_body cycle3 DOWNSTREAM 1 None
        \<lparr>queue = [(''C'', 2)], visited = {''B'', ''A''}, yielded = [(''A'', 0), (''B'', 1)]\<rparr>
      = \<lparr>queue = [], visited = {''B'', ''A''}, yielded = [(''A'', 0), (''B'', 1)]\<rparr>"
    using st[of "\<lparr>queue = [(''C'', 2)], visited = {''B'', ''A''},
                  yielded = [(''A'', 0), (''B'', 1)]\<rparr>" "''C''" 2 "[]"]
    by simp
  have z1: "traverse_graph cycle3 ''A'' DOWNSTREAM 0 None = Some ([], [(''A'', 0)])"
    using max_depth_is_ceiling[of 0 cycle3 "''A''" DOWNSTREAM None] ex
    by (simp add: filter_rejects_def)
  have z2: "traverse_graph cycle3 ''A'' DOWNSTREAM 0 (Some {''mesh''}) = Some ([], [])"
    using max_depth_is_ceiling[of 0 cycle3 "''A''" DOWNSTREAM "Some {''mesh''}"] ex
    by (simp add: filter_rejects_def cycle3_def scene_def)
  from ex cycle3_run reach cycle3_depth1 deep z1 z2 show ?thesis by simp
qed

subsection \<open>Typed search\<close>

lemma collect_matching:
  "fold (\<lambda>(node, _) results. if P node then results @ [node] else results) records acc
     = acc @ filter P (map fst records)"
  by (induction records arbitrary: acc) (auto split: prod.splits)

text \<open>
  C7: find_connected_nodes_by_type runs the traversal with no filter and max_depth -1 and
  returns, in the order of the traversal, exactly the yielded names whose type equals
  the target type: a subsequence of the names the unfiltered traversal yields. It
  returns whenever the traversal does.
\<close>

theorem find_by_type_is_filtered_traversal:
  "(\<forall>logged records.
      traverse_graph M start_node direction (- 1) None = Some (logged, records) \<longrightarrow>
      (\<exists>results.
         find_connected_nodes_by_type M start_node target_type direction = Some (logged, results)
         \<and> results = filter (\<lambda>n. nodeType M n = target_type) (map fst records)
         \<and> subseq results (map fst records)))
   \<and> (traverse_graph M start_node direction (- 1) None = None \<longrightarrow>
        find_connected_nodes_by_type M start_node target_type direction = None)"
  by (simp add: find_connected_nodes_by_type_def collect_matching)

theorem find_by_type_is_filtered_traversal_witness:
  "traverse_graph cycle3 ''A'' DOWNSTREAM (- 1) None
     = Some ([], [(''A'', 0), (''B'', 1), (''C'', 2)])
   \<and> find_connected_nodes_by_type cycle3 ''A'' ''file'' DOWNSTREAM = Some ([], [''C''])
   \<and> subseq [''C''] [''A'', ''B'', ''C'']"
proof -
  from find_by_type_is_filtered_traversal[of cycle3 "''A''" DOWNSTREAM "''file''"] cycle3_run
  obtain results where
    f: "find_connected_nodes_by_type cycle3 ''A'' ''file'' DOWNSTREAM = Some ([], results)"
    and r: "results = filter (\<lambda>n. nodeType cycle3 n = ''file'')
                         (map fst [(''A'', 0 :: int), (''B'', 1), (''C'', 2)])"
    and s: "subseq results (map fst [(''A'', 0 :: int), (''B'', 1), (''C'', 2)])"
    by blast
  from r have "results = [''C'']" by (simp add: cycle3_def scene_def)
  with f s cycle3_run show ?thesis by simp
qed

subsection \<open>The empty filter\<close>

lemma loop_body_empty_filter:
  "loop_body M d md (Some {}) t = loop_body M d md None t"
  by (simp add: loop_body_def filter_rejects_def split: list.splits)

lemma cycle3_empty_filter_run:
  "traverse_graph cycle3 ''A'' DOWNSTREAM (- 1) (Some {})
     = Some ([], [(''A'', 0), (''B'', 1), (''C'', 2)])"
  by (simp add: cycle3_def scene_eval)

text \<open>
  C10: an empty set as type filter is the same as no filter: the two traversals are
  equal, and without a depth limit the empty filter yields every node reachable from an
  existing start node, rather than rejecting every node.
\<close>

theorem empty_filter_is_no_filter:
  "traverse_graph M start_node direction max_depth (Some {})
     = traverse_graph M start_node direction max_depth None
   \<and> (max_depth < 0 \<and> objExists M start_node \<longrightarrow>
        (\<forall>logged out.
           traverse_graph M start_node direction max_depth (Some {}) = Some (logged, out) \<longrightarrow>
           fst ` set out = reachable M direction start_node))"
proof (intro conjI allI impI)
  have "bfs_loop M direction max_depth (Some {}) s = bfs_loop M direction max_depth None s" for s
    by (rule bfs_loop_body_cong) (rule loop_body_empty_filter)
  then show "traverse_graph M start_node direction max_depth (Some {})
     = traverse_graph M start_node direction max_depth None"
    by (simp add: traverse_graph_def)
next
  fix logged out
  assume h: "max_depth < 0 \<and> objExists M start_node"
    and run: "traverse_graph M start_node direction max_depth (Some {}) = Some (logged, out)"
  have "fst ` set out = reachable_through M direction (Some {}) start_node"
    using traverse_graph_sound[OF run] traverse_graph_complete[OF run] h by auto
  then show "fst ` set out = reachable M direction start_node"
    by (simp add: reachable_through_unfiltered filter_rejects_inactive)
qed

theorem empty_filter_is_no_filter_witness:
  "(- 1 :: int) < 0 \<and> objExists cycle3 ''A''
   \<and> traverse_graph cycle3 ''A'' DOWNSTREAM (- 1) (Some {})
       = Some ([], [(''A'', 0), (''B'', 1), (''C'', 2)])
   \<and> traverse_graph cycle3 ''A'' DOWNSTREAM (- 1) None
       = Some ([], [(''A'', 0), (''B'', 1), (''C'', 2)])
   \<and> reachable cycle3 DOWNSTREAM ''A'' = {''A'', ''B'', ''C''}"
proof -
  have ex: "objExists cycle3 ''A''" by (simp add: cycle3_def scene_def)
  note inst = empty_filter_is_no_filter[of cycle3 "''A''" DOWNSTREAM "- 1"]
  from inst cycle3_empty_filter_run
  have same: "traverse_graph cycle3 ''A'' DOWNSTREAM (- 1) None
       = Some ([], [(''A'', 0), (''B'', 1), (''C'', 2)])" by simp
  from inst ex cycle3_empty_filter_run
  have "fst ` set [(''A'', 0 :: int), (''B'', 1), (''C'', 2)] = reachable cycle3 DOWNSTREAM ''A''"
    by simp
  then have "reachable cycle3 DOWNSTREAM ''A'' = {''A'', ''B'', ''C''}" by auto
  with ex cycle3_empty_filter_run same show ?thesis by simp
qed

subsection \<open>Duplicates in the neighbour list\<close>

text \<open>
  C8, as stated, fails: the neighbour list is not deduplicated before it is enqueued.
  In the scene double_link the destinations of A list B twice, and expanding A puts B
  into the queue twice.
\<close>

theorem expansion_enqueues_duplicate:
  "next_nodes double_link DOWNSTREAM ''A'' = [''B'', ''B'']
   \<and> queue (loop_body double_link DOWNSTREAM (- 1) None (initial_state ''A''))
       = [(''B'', 1), (''B'', 1)]"
  by (simp add: double_link_def scene_eval)

text \<open>
  C8, amended: expanding a node appends to the queue, at depth + 1 and in list order
  (the upstream answer, then the downstream answer), every occurrence of a neighbour that
  is not in the visited set; the list is not deduplicated, so one pass may enqueue a
  name several times. A queued name that is already visited when it is dequeued is
  dropped with no other effect, and no name is yielded twice.
\<close>

theorem expansion_enqueues_each_occurrence:
  "(queue s = (n, dp) # rest \<and> n \<notin> visited s \<and> \<not> (0 \<le> max_depth \<and> max_depth < dp)
      \<and> \<not> filter_rejects node_filter (nodeType M n) \<longrightarrow>
      queue (loop_body M direction max_depth node_filter s)
        = rest @ map (\<lambda>m. (m, dp + 1))
                   (filter (\<lambda>m. m \<noteq> n \<and> m \<notin> visited s) (next_nodes M direction n)))
   \<and> (queue s = (n, dp) # rest \<and> n \<in> visited s \<longrightarrow>
        loop_body M direction max_depth node_filter s = s\<lparr>queue := rest\<rparr>)
   \<and> (traverse_graph M start_node direction max_depth node_filter = Some (logged, out) \<longrightarrow>
        distinct (map fst out))"
proof (intro conjI impI)
  assume "queue s = (n, dp) # rest \<and> n \<notin> visited s \<and> \<not> (0 \<le> max_depth \<and> max_depth < dp)
      \<and> \<not> filter_rejects node_filter (nodeType M n)"
  then show "queue (loop_body M direction max_depth node_filter s)
        = rest @ map (\<lambda>m. (m, dp + 1))
                   (filter (\<lambda>m. m \<noteq> n \<and> m \<notin> visited s) (next_nodes M direction n))"
    using loop_body_expanded[of s n dp rest max_depth node_filter M direction] by simp
next
  assume "queue s = (n, dp) # rest \<and> n \<in> visited s"
  then show "loop_body M direction max_depth node_filter s = s\<lparr>queue := rest\<rparr>"
    by (simp add: loop_body_seen)
next
  assume "traverse_graph M start_node direction max_depth node_filter = Some (logged, out)"
  then show "distinct (map fst out)" by (rule traverse_graph_distinct)
qed

theorem expansion_enqueues_each_occurrence_witness:
  "queue (loop_body double_link DOWNSTREAM (- 1) None (initial_state ''A''))
     = [(''B'', 1), (''B'', 1)]
   \<and> loop_body double_link DOWNSTREAM (- 1) None
        \<lparr>queue = [(''B'', 1)], visited = {''B'', ''A''}, yielded = [(''A'', 0), (''B'', 1)]\<rparr>
      = \<lparr>queue = [], visited = {''B'', ''A''}, yielded = [(''A'', 0), (''B'', 1)]\<rparr>
   \<and> traverse_graph double_link ''A'' DOWNSTREAM (- 1) None = Some ([], [(''A'', 0), (''B'', 1)])
   \<and> distinct [''A'', ''B'']"
proof -
  have nn: "next_nodes double_link DOWNSTREAM ''A'' = [''B'', ''B'']"
    by (simp add: double_link_def scene_def next_nodes_def or_empty_def)
  have run: "traverse_graph double_link ''A'' DOWNSTREAM (- 1) None
               = Some ([], [(''A'', 0), (''B'', 1)])"
    by (simp add: double_link_def scene_eval)
  have a: "queue (loop_body double_link DOWNSTREAM (- 1) None (initial_state ''A''))
     = [(''B'', 1), (''B'', 1)]"
    using expansion_enqueues_each_occurrence[of "initial_state ''A''" "''A''" 0 "[]" "- 1" None
        double_link DOWNSTREAM "''A''" "[]" "[(''A'', 0), (''B'', 1)]"] nn
    by (simp add: initial_state_def filter_rejects_def)
  have b: "loop_body double_link DOWNSTREAM (- 1) None
        \<lparr>queue = [(''B'', 1)], visited = {''B'', ''A''}, yielded = [(''A'', 0), (''B'', 1)]\<rparr>
      = \<lparr>queue = [], visited = {''B'', ''A''}, yielded = [(''A'', 0), (''B'', 1)]\<rparr>"
    using expansion_enqueues_each_occurrence[of
        "\<lparr>queue = [(''B'', 1)], visited = {''B'', ''A''}, yielded = [(''A'', 0), (''B'', 1)]\<rparr>"
        "''B''" 1 "[]" "- 1" None double_link DOWNSTREAM "''A''" "[]" "[(''A'', 0), (''B'', 1)]"]
    by simp
  have c: "distinct [''A'', ''B'']"
    using expansion_enqueues_each_occurrence[of "initial_state ''A''" "''A''" 0 "[]" "- 1" None
        double_link DOWNSTREAM "''A''" "[]" "[(''A'', 0), (''B'', 1)]"] run
    by simp
  from a b run c show ?thesis by blast
qed

subsection \<open>get_all_connections on an outgoing connection\<close>

text \<open>
  C5 asks for source = node and dest = other when the node's own plug is the output
  side. The code does otherwise: for the single connection A.outColor -> B.color,
  queried at A, the host lists the pair (A.outColor, B.color), the first plug is on the
  queried node, and the record built has B as source and A as destination.
\<close>

theorem get_all_connections_outgoing:
  "get_all_connections one_link ''A''
     = Inr [\<lparr>source_node = ''B'', source_attr = ''color'',
             dest_node = ''A'', dest_attr = ''outColor''\<rparr>]"
  by (simp add: get_all_connections_def one_link_def or_empty_def split_dot_def)

subsection \<open>DGIterator construction\<close>

text \<open>
  C9, as stated, fails for an ambiguous name: the constructor reads item 0 of the
  selection list and does not check that the name matched one object only. When the
  host's add puts two objects into the list, construction succeeds with the first.
\<close>

theorem DGIterator_init_ambiguous_succeeds:
  "two_cubes ''pCube1'' [] = Inr [1, 2] \<and> DGIterator_init two_cubes ''pCube1'' = Inr 1"
  by (simp add: two_cubes_def selection_host_def DGIterator_init_def getDependNode_def)

text \<open>
  C9, amended: construction fails, at construction time, exactly when the host's add
  raises (the error is passed on) or leaves the selection list empty (IndexError from
  reading item 0); when the list has one or more objects construction succeeds with
  the first of them.
\<close>

theorem DGIterator_init_result:
  "(sel_add start_node [] = Inl e \<longrightarrow> DGIterator_init sel_add start_node = Inl e)
   \<and> (sel_add start_node [] = Inr [] \<longrightarrow> DGIterator_init sel_add start_node = Inl IndexError)
   \<and> (sel_add start_node [] = Inr (obj # others) \<longrightarrow>
        DGIterator_init sel_add start_node = Inr obj)"
  by (simp add: DGIterator_init_def getDependNode_def)

theorem DGIterator_init_result_witness:
  "two_cubes ''missing'' [] = Inl RuntimeError
   \<and> DGIterator_init two_cubes ''missing'' = Inl RuntimeError
   \<and> two_cubes ''nothing'' [] = Inr []
   \<and> DGIterator_init two_cubes ''nothing'' = Inl IndexError
   \<and> two_cubes ''pCube1'' [] = Inr [1, 2]
   \<and> DGIterator_init two_cubes ''pCube1'' = Inr 1"
proof -
  have a: "two_cubes ''missing'' [] = Inl RuntimeError"
    and b: "two_cubes ''nothing'' [] = Inr []"
    and c: "two_cubes ''pCube1'' [] = Inr [1, 2]"
    by (simp_all add: two_cubes_def selection_host_def)
  from a DGIterator_init_result[of two_cubes "''missing''" RuntimeError]
  have a': "DGIterator_init two_cubes ''missing'' = Inl RuntimeError" by blast
  from b DGIterator_init_result[of two_cubes "''nothing''"]
  have b': "DGIterator_init two_cubes ''nothing'' = Inl IndexError" by blast
  from c DGIterator_init_result[of two_cubes "''pCube1''" _ 1 "[2]"]
  have c': "DGIterator_init two_cubes ''pCube1'' = Inr 1" by blast
  from a a' b b' c c' show ?thesis by blast
qed

end
